theory Spec2Isabelle
  imports Main
begin

section \<open>Vorple's prompt module (\<^verbatim>\<open>src/vorple/prompt.ts\<close>)\<close>

text \<open>
  The module keeps three module-level arrays (\<^verbatim>\<open>inputFilters\<close>, \<^verbatim>\<open>commandQueue\<close>,
  \<^verbatim>\<open>keyQueue\<close>) and talks to the input engine (Haven), to the layout module
  (\<^verbatim>\<open>block\<close>, \<^verbatim>\<open>unblock\<close>) and to the debug module (\<^verbatim>\<open>error\<close>).
  Here every function takes the arrays it reads and returns the new ones, and every
  call that leaves the module is recorded, in order, in a list of events.
\<close>

subsection \<open>JavaScript values and promises\<close>

text \<open>
  What a filter may hand back at run time: any JavaScript value. Only the distinctions
  the code makes are kept: the value's \<^verbatim>\<open>typeof\<close>, strict equality with
  \<^verbatim>\<open>undefined\<close>, \<^verbatim>\<open>null\<close>, \<^verbatim>\<open>true\<close> and \<^verbatim>\<open>false\<close>, whether an object has a
  \<^verbatim>\<open>then\<close> property, and whether it is a thenable.

  \<^item> \<open>JObject t\<close> is an object that is not a thenable; \<open>t\<close> says whether it has a
    property called \<^verbatim>\<open>then\<close> (which is then not callable).
  \<^item> \<open>JPromise p\<close> is a promise (or any thenable); \<open>p\<close> is how it gets resolved:
    with a value (\<^verbatim>\<open>resolve(v)\<close>, where \<open>v\<close> may be a promise again), with a
    rejection, or never.
  \<^item> \<open>JFunction\<close> is a function object that is not a thenable.
  \<^item> The payload of a number, a bigint or a symbol plays no role in the code.
\<close>

datatype jsval =
    JUndefined
  | JNull
  | JBool bool
  | JNumber int
  | JBigInt int
  | JString string
  | JSymbol string
  | JFunction
  | JObject bool
  | JPromise promise
and promise =
    ResolvedWith jsval
  | RejectedWith jsval
  | NeverSettled

fun typeof :: "jsval \<Rightarrow> string" where
  "typeof JUndefined = ''undefined''"
| "typeof JNull = ''object''"
| "typeof (JBool b) = ''boolean''"
| "typeof (JNumber n) = ''number''"
| "typeof (JBigInt n) = ''bigint''"
| "typeof (JString s) = ''string''"
| "typeof (JSymbol s) = ''symbol''"
| "typeof JFunction = ''function''"
| "typeof (JObject t) = ''object''"
| "typeof (JPromise p) = ''object''"

text \<open>
  \<^verbatim>\<open>"then" in v\<close>. The code evaluates it only after \<^verbatim>\<open>typeof v === "object"\<close>
  and after the \<^verbatim>\<open>null\<close> case of the switch, that is on objects only (on a primitive
  the operator would raise a TypeError).
\<close>

fun has_then :: "jsval \<Rightarrow> bool" where
  "has_then (JObject t) = t"
| "has_then (JPromise p) = True"
| "has_then v = False"

text \<open>
  \<^verbatim>\<open>await Promise.resolve( v )\<close>. A value that is not a thenable is wrapped in a
  fulfilled promise, so awaiting gives it back. A promise is awaited itself; a promise
  that was resolved with another thenable adopts that thenable's state (the promise
  resolve functions of ECMAScript), so the nesting is followed to its end. The three
  outcomes: the await continues with a value, it throws the rejection reason, or it
  never continues.
\<close>

datatype settled = Fulfilled jsval | Rejected jsval | Pending

fun await :: "jsval \<Rightarrow> settled" where
  "await (JPromise (ResolvedWith v)) = await v"
| "await (JPromise (RejectedWith e)) = Rejected e"
| "await (JPromise NeverSettled) = Pending"
| "await v = Fulfilled v"

subsection \<open>Filters, events and completions\<close>

datatype input_type = LineInput | CharInput

record InputFilterMeta =
  input :: string
  original :: string
  type :: input_type
  userAction :: bool
  silent :: bool

text \<open>
  Calling a filter either returns a value (possibly a promise) or throws. A filter is
  called at most once in a run of \<^verbatim>\<open>applyInputFilters\<close>, so it is given by what it
  does on its two arguments. This is a filter that leaves \<^verbatim>\<open>inputFilters\<close> alone;
  a filter that registers or removes filters while a run is under way is a
  \<open>filter_body\<close>, further down.
\<close>

datatype call_result = Returns jsval | Throws jsval

type_synonym InputFilter = "string \<Rightarrow> InputFilterMeta \<Rightarrow> call_result"

text \<open>
  What leaves the module during a run, in order: the calls of \<^verbatim>\<open>block\<close> and
  \<^verbatim>\<open>unblock\<close>, the call of the filter at index \<open>i\<close> with its two arguments, and the
  message handed to \<^verbatim>\<open>error\<close>.
\<close>

datatype event =
    Block
  | Unblock
  | Call nat string InputFilterMeta
  | Error string

text \<open>
  How a function ends: it returns a value, it throws, or it never resumes from an
  \<^verbatim>\<open>await\<close>. \<^verbatim>\<open>applyInputFilters\<close> is an \<^verbatim>\<open>async\<close> function: returning fulfils
  the promise it gave its caller, throwing rejects it.
\<close>

datatype exception = Thrown jsval | ErrorThrown string

datatype completion = Return jsval | Throw exception | Suspended

text \<open>
  Modelled from the spec: \<^verbatim>\<open>error\<close> of the debug module (\<^verbatim>\<open>./debug\<close>), which is
  imported by the prompt module and defined elsewhere. It is the logging call of the
  error-handling section; the repository's end-to-end test of it (\<^verbatim>\<open>debugging\<close> /
  \<^verbatim>\<open>error\<close>) states what a call does: it "prints an error message to the console",
  it "throws a JavaScript error", and it "throws even when debugging is off". A call
  therefore emits the message and ends by throwing.
\<close>

definition error :: "string \<Rightarrow> event list \<times> exception" where
  "error text = ([Error text], ErrorThrown text)"

subsection \<open>\<^verbatim>\<open>applyInputFilters\<close>\<close>

text \<open>The second argument of every filter call: \<^verbatim>\<open>{ ...meta, input, original, type: "line" }\<close>.\<close>

definition filter_meta :: "InputFilterMeta \<Rightarrow> string \<Rightarrow> string \<Rightarrow> InputFilterMeta" where
  "filter_meta meta finalInput originalInput =
     meta\<lparr>input := finalInput, original := originalInput, type := LineInput\<rparr>"

text \<open>
  The \<^verbatim>\<open>switch( filtered )\<close> of the loop body. It either falls out of the switch
  with the (possibly replaced) \<^verbatim>\<open>finalInput\<close>, or leaves the function.
\<close>

datatype flow = Next string | Exit completion

fun switch_filtered :: "jsval \<Rightarrow> string \<Rightarrow> event list \<times> flow" where
  "switch_filtered JUndefined finalInput = ([], Next finalInput)"
| "switch_filtered JNull finalInput = ([], Next finalInput)"
| "switch_filtered (JBool True) finalInput = ([], Next finalInput)"
| "switch_filtered (JBool False) finalInput = ([], Exit (Return (JBool False)))"
| "switch_filtered filtered finalInput =
     (let type = typeof filtered in
      if type = ''object'' \<and> has_then filtered then
        (case error ''Input filter promise resolved into another promise, which is not allowed'' of
           (es, ex) \<Rightarrow> (es, Exit (Throw ex)))
      else if type = ''string'' then
        (case filtered of JString s \<Rightarrow> ([], Next s) | _ \<Rightarrow> ([], Next finalInput))
      else
        (case error (''Input filter returned a value of type '' @ type) of
           (es, ex) \<Rightarrow> (es, Exit (Throw ex))))"

text \<open>
  The \<^verbatim>\<open>for\<close> loop, from index \<open>i\<close> on, over the filters that remain, for a run
  during which \<^verbatim>\<open>inputFilters\<close> does not change. (The source reads
  \<^verbatim>\<open>inputFilters.length\<close> and \<^verbatim>\<open>inputFilters[ i ]\<close> anew in every iteration;
  \<open>live_loop\<close>, further down, is the loop over the array as it is at that moment, and
  it is this loop whenever no filter changes the array.) The filter is
  called outside the \<^verbatim>\<open>try\<close>: what it throws leaves the function at once. The
  \<^verbatim>\<open>finally\<close> block runs \<^verbatim>\<open>unblock()\<close> once the await is over, whether it gave a
  value or threw. After the last filter: \<^verbatim>\<open>unblock(); return finalInput\<close>.
\<close>

fun filter_loop ::
  "InputFilter list \<Rightarrow> nat \<Rightarrow> string \<Rightarrow> InputFilterMeta \<Rightarrow> string \<Rightarrow> event list \<times> completion"
where
  "filter_loop [] i originalInput meta finalInput = ([Unblock], Return (JString finalInput))"
| "filter_loop (f # fs) i originalInput meta finalInput =
     (let m = filter_meta meta finalInput originalInput in
      case f finalInput m of
        Throws e \<Rightarrow> ([Call i finalInput m], Throw (Thrown e))
      | Returns r \<Rightarrow>
          (case await r of
             Pending \<Rightarrow> ([Call i finalInput m], Suspended)
           | Rejected e \<Rightarrow> ([Call i finalInput m, Unblock], Throw (Thrown e))
           | Fulfilled filtered \<Rightarrow>
               (case switch_filtered filtered finalInput of
                  (es, Exit c) \<Rightarrow> ([Call i finalInput m, Unblock] @ es, c)
                | (es, Next finalInput') \<Rightarrow>
                    (case filter_loop fs (Suc i) originalInput meta finalInput' of
                       (rest, c) \<Rightarrow> ([Call i finalInput m, Unblock] @ es @ rest, c)))))"

definition applyInputFilters ::
  "InputFilter list \<Rightarrow> string \<Rightarrow> InputFilterMeta \<Rightarrow> event list \<times> completion"
where
  "applyInputFilters inputFilters originalInput meta =
     (case filter_loop inputFilters 0 originalInput meta originalInput of
        (es, c) \<Rightarrow> (Block # es, c))"

subsection \<open>Reading the events of a run\<close>

text \<open>
  Modelled from the spec: \<^verbatim>\<open>block\<close> and \<^verbatim>\<open>unblock\<close> of the layout module
  (\<^verbatim>\<open>./layout\<close>), imported by the prompt module and defined elsewhere. \<^verbatim>\<open>block\<close>
  disables the user interface's input and \<^verbatim>\<open>unblock\<close> enables it again (the layout
  test: after \<^verbatim>\<open>block\<close> typing has no effect, after \<^verbatim>\<open>unblock\<close> it has).
  \<open>ui_blocked b es\<close> is whether input is disabled after the events \<open>es\<close>, when it was
  \<open>b\<close> before.
\<close>

fun ui_blocked :: "bool \<Rightarrow> event list \<Rightarrow> bool" where
  "ui_blocked b [] = b"
| "ui_blocked b (Block # es) = ui_blocked True es"
| "ui_blocked b (Unblock # es) = ui_blocked False es"
| "ui_blocked b (e # es) = ui_blocked b es"

text \<open>
  Whether every filter of the run was called, and awaited, with input disabled. Nothing
  is emitted between the call of a filter and the end of its await, so the state at the
  call is the state for as long as that filter is pending.
\<close>

fun blocked_while_pending :: "bool \<Rightarrow> event list \<Rightarrow> bool" where
  "blocked_while_pending b [] = True"
| "blocked_while_pending b (Block # es) = blocked_while_pending True es"
| "blocked_while_pending b (Unblock # es) = blocked_while_pending False es"
| "blocked_while_pending b (Call i s m # es) = (b \<and> blocked_while_pending b es)"
| "blocked_while_pending b (Error t # es) = blocked_while_pending b es"

text \<open>The indices of the filters a run called, in the order of the calls.\<close>

fun called :: "event list \<Rightarrow> nat list" where
  "called [] = []"
| "called (Call i s m # es) = i # called es"
| "called (e # es) = called es"

text \<open>
  The value a filter call comes to, promises resolved: \<open>None\<close> when the call throws,
  or returns a promise that is rejected or never settles.
\<close>

definition resolved_return :: "InputFilter \<Rightarrow> string \<Rightarrow> InputFilterMeta \<Rightarrow> jsval option" where
  "resolved_return f s m =
     (case f s m of
        Throws e \<Rightarrow> None
      | Returns r \<Rightarrow> (case await r of Fulfilled v \<Rightarrow> Some v | _ \<Rightarrow> None))"

text \<open>
  The sequential application as the specification words it: a string return value
  replaces the input passed to the filters after it, any other leaves it as it is.
  \<open>threaded\<close> lists the input each filter is to receive, in registration order, and
  \<open>final_input\<close> is the string after the last one.
\<close>

definition next_input :: "InputFilter \<Rightarrow> string \<Rightarrow> InputFilterMeta \<Rightarrow> string \<Rightarrow> string" where
  "next_input f originalInput meta s =
     (case resolved_return f s (filter_meta meta s originalInput) of
        Some (JString t) \<Rightarrow> t
      | _ \<Rightarrow> s)"

fun threaded :: "InputFilter list \<Rightarrow> string \<Rightarrow> InputFilterMeta \<Rightarrow> string \<Rightarrow> string list" where
  "threaded [] originalInput meta s = []"
| "threaded (f # fs) originalInput meta s =
     s # threaded fs originalInput meta (next_input f originalInput meta s)"

definition final_input :: "InputFilter list \<Rightarrow> string \<Rightarrow> InputFilterMeta \<Rightarrow> string \<Rightarrow> string" where
  "final_input fs originalInput meta s = foldl (\<lambda>s f. next_input f originalInput meta s) s fs"

text \<open>No filter cancels: each one, on the input it receives, comes to \<^verbatim>\<open>true\<close> or to a string.\<close>

fun true_or_string :: "jsval option \<Rightarrow> bool" where
  "true_or_string (Some (JBool True)) = True"
| "true_or_string (Some (JString t)) = True"
| "true_or_string v = False"

fun none_cancels :: "InputFilter list \<Rightarrow> string \<Rightarrow> InputFilterMeta \<Rightarrow> string \<Rightarrow> bool" where
  "none_cancels [] originalInput meta s = True"
| "none_cancels (f # fs) originalInput meta s =
     (true_or_string (resolved_return f s (filter_meta meta s originalInput)) \<and>
      none_cancels fs originalInput meta (next_input f originalInput meta s))"

text \<open>
  The values the switch hands to \<^verbatim>\<open>error\<close>: everything but \<^verbatim>\<open>undefined\<close>,
  \<^verbatim>\<open>null\<close>, the booleans and the strings; and the message it gives for one.
\<close>

fun reported :: "jsval \<Rightarrow> bool" where
  "reported JUndefined = False"
| "reported JNull = False"
| "reported (JBool b) = False"
| "reported (JString s) = False"
| "reported v = True"

definition report_message :: "jsval \<Rightarrow> string" where
  "report_message v =
     (if typeof v = ''object'' \<and> has_then v
      then ''Input filter promise resolved into another promise, which is not allowed''
      else ''Input filter returned a value of type '' @ typeof v)"

text \<open>
  A filter with every \<^verbatim>\<open>undefined\<close> or \<^verbatim>\<open>null\<close> it comes to replaced by a plain
  \<^verbatim>\<open>true\<close>; on every other input it is the filter itself.
\<close>

definition nullish_as_true :: "InputFilter \<Rightarrow> InputFilter" where
  "nullish_as_true f =
     (\<lambda>s m. if resolved_return f s m = Some JUndefined \<or> resolved_return f s m = Some JNull
            then Returns (JBool True) else f s m)"

text \<open>The meta data of a line the player typed, before the module fills in the rest.\<close>

definition typed_meta :: InputFilterMeta where
  "typed_meta =
     \<lparr>input = [], original = [], type = CharInput, userAction = True, silent = False\<rparr>"

subsection \<open>The command queue and the keypress queue\<close>

record ParserCommand =
  cmd :: string
  silent :: bool

text \<open>
  The calls the module makes to the input engine:
  \<^verbatim>\<open>sendCommand( new CustomEvent( "submit", { detail: { silent, userAction } } ), command )\<close>
  and \<^verbatim>\<open>keypress.send({ keyCode, force })\<close>. Haven is not part of the module; a call
  is recorded with its arguments.
\<close>

datatype engine_call =
    SendCommand string bool bool
  | KeypressSend "nat option" bool

record prompt =
  commandQueue :: "ParserCommand list"
  keyQueue :: "string list"
  engine :: "engine_call list"

text \<open>\<^verbatim>\<open>key.charCodeAt( 0 )\<close>: the code of the first character, \<^verbatim>\<open>NaN\<close> (\<open>None\<close>) for the empty string.\<close>

definition charCodeAt0 :: "string \<Rightarrow> nat option" where
  "charCodeAt0 key = (case key of [] \<Rightarrow> None | c # cs \<Rightarrow> Some (of_char c))"

text \<open>The flag is a boolean here, so \<^verbatim>\<open>!!silent\<close> is the flag itself.\<close>

definition submit :: "string \<Rightarrow> bool \<Rightarrow> prompt \<Rightarrow> prompt" where
  "submit command silent_flag p = p\<lparr>engine := engine p @ [SendCommand command silent_flag False]\<rparr>"

text \<open>\<^verbatim>\<open>shift()\<close> takes the first element off the array. Without a command the function returns nothing (\<^verbatim>\<open>undefined\<close>).\<close>

definition runCommandQueue :: "prompt \<Rightarrow> jsval \<times> prompt" where
  "runCommandQueue p =
     (if length (commandQueue p) > 0 then
        (let command = hd (commandQueue p);
             p1 = p\<lparr>commandQueue := tl (commandQueue p)\<rparr>
         in (JBool False, submit (cmd command) (ParserCommand.silent command) p1))
      else (JUndefined, p))"

definition runKeyQueue :: "prompt \<Rightarrow> jsval \<times> prompt" where
  "runKeyQueue p =
     (if length (keyQueue p) > 0 then
        (let key = hd (keyQueue p);
             p1 = p\<lparr>keyQueue := tl (keyQueue p)\<rparr>
         in (JBool False, p1\<lparr>engine := engine p1 @ [KeypressSend (charCodeAt0 key) True]\<rparr>))
      else (JBool True, p))"

text \<open>The engine call that forwards a queued command, and the one that forwards a queued key.\<close>

definition send_of :: "ParserCommand \<Rightarrow> engine_call" where
  "send_of c = SendCommand (cmd c) (ParserCommand.silent c) False"

definition press_of :: "string \<Rightarrow> engine_call" where
  "press_of k = KeypressSend (charCodeAt0 k) True"

text \<open>
  \<^verbatim>\<open>isReady()\<close> and \<^verbatim>\<open>getMode()\<close> ask Haven; what they answer at the time of the
  call is an argument here (\<open>ready\<close>, \<open>mode\<close>).
\<close>

definition queueCommand :: "string \<Rightarrow> bool \<Rightarrow> bool \<Rightarrow> prompt \<Rightarrow> prompt" where
  "queueCommand command silent_flag ready p =
     (let p1 = p\<lparr>commandQueue := commandQueue p @ [\<lparr>cmd = command, silent = silent_flag\<rparr>]\<rparr>
      in if ready then snd (runCommandQueue p1) else p1)"

definition queueKeypress :: "string \<Rightarrow> string \<Rightarrow> prompt \<Rightarrow> prompt" where
  "queueKeypress key mode p =
     (let p1 = p\<lparr>keyQueue := keyQueue p @ [key]\<rparr>
      in if mode = ''getkey'' then snd (runKeyQueue p1) else p1)"

text \<open>
  Modelled from the spec: \<^verbatim>\<open>addEventListener\<close> of \<^verbatim>\<open>./vorple\<close> and the firing of
  an event, both defined outside the module. A listener is registered under the name of
  an engine lifecycle event; when the event fires, the listeners registered under its
  name run, in the order of registration. What a listener returns is not used here.
\<close>

type_synonym listener = "prompt \<Rightarrow> jsval \<times> prompt"

definition addEventListener ::
  "string \<Rightarrow> listener \<Rightarrow> (string \<times> listener) list \<Rightarrow> (string \<times> listener) list"
where
  "addEventListener name fn listeners = listeners @ [(name, fn)]"

fun fire :: "string \<Rightarrow> (string \<times> listener) list \<Rightarrow> prompt \<Rightarrow> prompt" where
  "fire name [] p = p"
| "fire name ((n, fn) # listeners) p =
     fire name listeners (if n = name then snd (fn p) else p)"

definition init :: "(string \<times> listener) list \<Rightarrow> (string \<times> listener) list" where
  "init listeners =
     addEventListener ''expectKeypress'' runKeyQueue
       (addEventListener ''expectCommand'' runCommandQueue listeners)"

text \<open>
  What can happen to the two queues, one step at a time: a call of \<^verbatim>\<open>queueCommand\<close>
  or \<^verbatim>\<open>queueKeypress\<close> (with Haven's answer at that time), or one of the two events
  firing after \<^verbatim>\<open>init()\<close>.
\<close>

datatype action =
    QueueCommand string bool bool
  | QueueKeypress string string
  | ExpectCommand
  | ExpectKeypress

fun act :: "prompt \<Rightarrow> action \<Rightarrow> prompt" where
  "act p (QueueCommand command silent_flag ready) = queueCommand command silent_flag ready p"
| "act p (QueueKeypress key mode) = queueKeypress key mode p"
| "act p ExpectCommand = fire ''expectCommand'' (init []) p"
| "act p ExpectKeypress = fire ''expectKeypress'' (init []) p"

definition empty_prompt :: prompt where
  "empty_prompt = \<lparr>commandQueue = [], keyQueue = [], engine = []\<rparr>"

fun queued_commands :: "action list \<Rightarrow> ParserCommand list" where
  "queued_commands [] = []"
| "queued_commands (QueueCommand command silent_flag ready # as) =
     \<lparr>cmd = command, silent = silent_flag\<rparr> # queued_commands as"
| "queued_commands (a # as) = queued_commands as"

fun queued_keys :: "action list \<Rightarrow> string list" where
  "queued_keys [] = []"
| "queued_keys (QueueKeypress key mode # as) = key # queued_keys as"
| "queued_keys (a # as) = queued_keys as"

fun sent_commands :: "engine_call list \<Rightarrow> ParserCommand list" where
  "sent_commands [] = []"
| "sent_commands (SendCommand command silent_flag user # cs) =
     \<lparr>cmd = command, silent = silent_flag\<rparr> # sent_commands cs"
| "sent_commands (c # cs) = sent_commands cs"

fun sent_keys :: "engine_call list \<Rightarrow> nat option list" where
  "sent_keys [] = []"
| "sent_keys (KeypressSend code force # cs) = code # sent_keys cs"
| "sent_keys (c # cs) = sent_keys cs"

subsection \<open>The registered filters\<close>

text \<open>
  \<^verbatim>\<open>inputFilters\<close> as a list. Filters are function objects, compared by identity
  (\<^verbatim>\<open>indexOf\<close> uses strict equality); the element type \<open>'f\<close> stands for these
  identities. \<^verbatim>\<open>indexOf\<close> gives the first index of the element, or \<open>-1\<close>.
\<close>

fun indexOf :: "'f list \<Rightarrow> 'f \<Rightarrow> int" where
  "indexOf [] x = -1"
| "indexOf (y # ys) x =
     (if y = x then 0 else (let k = indexOf ys x in if k = -1 then -1 else k + 1))"

text \<open>\<^verbatim>\<open>splice( index, count )\<close> with \<open>0 \<le> index\<close>: the array without \<open>count\<close> elements from \<open>index\<close> on.\<close>

definition array_splice :: "'f list \<Rightarrow> nat \<Rightarrow> nat \<Rightarrow> 'f list" where
  "array_splice xs index count = take index xs @ drop (index + count) xs"

definition removeInputFilter :: "'f \<Rightarrow> 'f list \<Rightarrow> bool \<times> 'f list" where
  "removeInputFilter flt inputFilters =
     (let index = indexOf inputFilters flt in
      if index = -1 then (False, inputFilters)
      else (True, array_splice inputFilters (nat index) 1))"

text \<open>
  \<^verbatim>\<open>addInputFilter\<close> returns the closure \<^verbatim>\<open>() => removeInputFilter( filter )\<close>, which
  acts on the array as it is when the closure is called.
\<close>

definition addInputFilter :: "'f \<Rightarrow> 'f list \<Rightarrow> ('f list \<Rightarrow> bool \<times> 'f list) \<times> 'f list" where
  "addInputFilter flt inputFilters = (removeInputFilter flt, inputFilters @ [flt])"

subsection \<open>\<^verbatim>\<open>applyInputFilters\<close> over the live array\<close>

text \<open>
  A filter may call \<^verbatim>\<open>addInputFilter\<close>, \<^verbatim>\<open>removeInputFilter\<close> or the closure it
  got from \<^verbatim>\<open>addInputFilter\<close>, and so change \<^verbatim>\<open>inputFilters\<close> while a run is
  under way (\<^verbatim>\<open>push\<close> and \<^verbatim>\<open>splice\<close> change the array in place). A
  \<open>filter_body\<close> says, for the function object \<open>f\<close> called with its two arguments
  while the array is \<open>inputFilters\<close>, what the call returns or throws and what the
  array is when the loop goes on after the await.
\<close>

type_synonym 'f filter_body =
  "'f \<Rightarrow> string \<Rightarrow> InputFilterMeta \<Rightarrow> 'f list \<Rightarrow> call_result \<times> 'f list"

text \<open>
  The \<^verbatim>\<open>for\<close> loop as the source has it:
  \<^verbatim>\<open>for( let i = 0; i < inputFilters.length; ++i ) { inputFilters[ i ]( ... ) ... }\<close>,
  where the length and the element are read from the array as it is in that iteration.
  A filter that registers a filter at every call keeps the loop going for ever, so the
  loop takes fuel, one unit for every test of the loop condition: \<open>None\<close> is a run
  that needs more. The result holds the array as the run leaves it.
\<close>

fun live_loop ::
  "nat \<Rightarrow> 'f filter_body \<Rightarrow> 'f list \<Rightarrow> nat \<Rightarrow> string \<Rightarrow> InputFilterMeta \<Rightarrow> string \<Rightarrow>
     (event list \<times> completion \<times> 'f list) option"
where
  "live_loop 0 body inputFilters i originalInput meta finalInput = None"
| "live_loop (Suc fuel) body inputFilters i originalInput meta finalInput =
     (if i < length inputFilters then
        (let m = filter_meta meta finalInput originalInput in
         case body (inputFilters ! i) finalInput m inputFilters of
           (Throws e, inputFilters') \<Rightarrow>
             Some ([Call i finalInput m], Throw (Thrown e), inputFilters')
         | (Returns r, inputFilters') \<Rightarrow>
             (case await r of
                Pending \<Rightarrow> Some ([Call i finalInput m], Suspended, inputFilters')
              | Rejected e \<Rightarrow>
                  Some ([Call i finalInput m, Unblock], Throw (Thrown e), inputFilters')
              | Fulfilled filtered \<Rightarrow>
                  (case switch_filtered filtered finalInput of
                     (es, Exit c) \<Rightarrow>
                       Some ([Call i finalInput m, Unblock] @ es, c, inputFilters')
                   | (es, Next finalInput') \<Rightarrow>
                       (case live_loop fuel body inputFilters' (Suc i) originalInput meta
                               finalInput' of
                          None \<Rightarrow> None
                        | Some (rest, c, inputFilters'') \<Rightarrow>
                            Some ([Call i finalInput m, Unblock] @ es @ rest, c,
                                  inputFilters'')))))
      else Some ([Unblock], Return (JString finalInput), inputFilters))"

definition applyInputFilters_live ::
  "nat \<Rightarrow> 'f filter_body \<Rightarrow> 'f list \<Rightarrow> string \<Rightarrow> InputFilterMeta \<Rightarrow>
     (event list \<times> completion \<times> 'f list) option"
where
  "applyInputFilters_live fuel body inputFilters originalInput meta =
     (case live_loop fuel body inputFilters 0 originalInput meta originalInput of
        None \<Rightarrow> None
      | Some (es, c, inputFilters') \<Rightarrow> Some (Block # es, c, inputFilters'))"

text \<open>The bodies of filters that leave the array alone.\<close>

definition leaves_list :: "('f \<Rightarrow> InputFilter) \<Rightarrow> 'f filter_body" where
  "leaves_list behaviour = (\<lambda>f s m inputFilters. (behaviour f s m, inputFilters))"


section \<open>Properties\<close>

subsection \<open>The registered filters\<close>

lemma indexOf_absent: "x \<notin> set xs \<Longrightarrow> indexOf xs x = -1"
  by (induction xs) auto

lemma indexOf_first:
  "x \<notin> set pre \<Longrightarrow> indexOf (pre @ x # post) x = int (length pre)"
  by (induction pre) (auto simp: Let_def)

lemma removeInputFilter_first:
  "x \<notin> set pre \<Longrightarrow> removeInputFilter x (pre @ x # post) = (True, pre @ post)"
  by (simp add: removeInputFilter_def indexOf_first array_splice_def)

text \<open>
  C7. The list of registered filters admits duplicates. \<^verbatim>\<open>addInputFilter\<close> always
  appends the filter, whether or not it is registered already. \<^verbatim>\<open>removeInputFilter\<close>
  removes exactly the first occurrence of the filter and returns \<^verbatim>\<open>true\<close> when the
  filter is registered (everything before and after that occurrence stays, in order),
  and returns \<^verbatim>\<open>false\<close> and leaves the list as it is when it is not.
\<close>

theorem inputFilters_add_remove:
  "snd (addInputFilter f fs) = fs @ [f] \<and>
   (f \<in> set fs \<longrightarrow>
      (\<exists>pre post. fs = pre @ f # post \<and> f \<notin> set pre \<and>
         removeInputFilter f fs = (True, pre @ post))) \<and>
   (f \<notin> set fs \<longrightarrow> removeInputFilter f fs = (False, fs))"
proof (intro conjI impI)
  show "snd (addInputFilter f fs) = fs @ [f]"
    by (simp add: addInputFilter_def)
next
  assume "f \<in> set fs"
  then obtain pre post where parts: "fs = pre @ f # post" "f \<notin> set pre"
    by (auto dest: split_list_first)
  then have "removeInputFilter f fs = (True, pre @ post)"
    by (simp add: removeInputFilter_first)
  with parts show "\<exists>pre post. fs = pre @ f # post \<and> f \<notin> set pre \<and>
         removeInputFilter f fs = (True, pre @ post)"
    by blast
next
  assume "f \<notin> set fs"
  then show "removeInputFilter f fs = (False, fs)"
    by (simp add: removeInputFilter_def indexOf_absent)
qed

theorem inputFilters_add_remove_witness:
  "snd (addInputFilter (2::nat) [1, 2, 3]) = [1, 2, 3, 2] \<and>
   (2::nat) \<in> set [1, 2, 3, 2] \<and>
   removeInputFilter (2::nat) [1, 2, 3, 2] = (True, [1, 3, 2]) \<and>
   (5::nat) \<notin> set [1, 2, 3, 2] \<and>
   removeInputFilter (5::nat) [1, 2, 3, 2] = (False, [1, 2, 3, 2])"
proof -
  have a: "snd (addInputFilter (2::nat) [1, 2, 3]) = [1, 2, 3, 2]"
    using inputFilters_add_remove [of "2::nat" "[1, 2, 3]"] by simp
  have registered: "(2::nat) \<in> set [1, 2, 3, 2]" by simp
  with inputFilters_add_remove [of "2::nat" "[1, 2, 3, 2]"]
  obtain pre post where parts: "[1, 2, 3, 2] = pre @ (2::nat) # post" "2 \<notin> set pre"
    and removed: "removeInputFilter (2::nat) [1, 2, 3, 2] = (True, pre @ post)"
    by blast
  have "pre = [1]"
    using parts by (cases pre; cases "tl pre") auto
  with parts have "post = [3, 2]" by simp
  with removed \<open>pre = [1]\<close>
  have b: "removeInputFilter (2::nat) [1, 2, 3, 2] = (True, [1, 3, 2])"
    by simp
  have absent: "(5::nat) \<notin> set [1, 2, 3, 2]" by simp
  have c: "removeInputFilter (5::nat) [1, 2, 3, 2] = (False, [1, 2, 3, 2])"
    using inputFilters_add_remove [of "5::nat" "[1, 2, 3, 2]"] by simp
  from a registered b absent c show ?thesis by blast
qed

text \<open>
  C9. \<^verbatim>\<open>addInputFilter\<close> returns a removal function. For a filter that is not
  registered yet, adding it and then calling the returned function gives the list of
  registered filters back exactly as it was (and the function returns \<^verbatim>\<open>true\<close>).
\<close>

theorem addInputFilter_remover_round_trip:
  "f \<notin> set fs \<Longrightarrow>
   (case addInputFilter f fs of (remove, fs') \<Rightarrow> remove fs') = (True, fs)"
  using removeInputFilter_first [of f fs "[]"]
  by (simp add: addInputFilter_def)

theorem addInputFilter_remover_round_trip_witness:
  "(3::nat) \<notin> set [1, 2] \<and>
   (case addInputFilter (3::nat) [1, 2] of (remove, fs') \<Rightarrow> remove fs') = (True, [1, 2])"
  using addInputFilter_remover_round_trip [of "3::nat" "[1, 2]"] by simp

text \<open>
  The hypothesis of C9 is needed: the closure removes the first occurrence, so for a
  filter registered before, the list comes back in another order.
\<close>

lemma addInputFilter_remover_duplicate:
  "(case addInputFilter (1::nat) [1, 2] of (remove, fs') \<Rightarrow> remove fs') = (True, [2, 1])"
  by (simp add: addInputFilter_def removeInputFilter_def array_splice_def)

subsection \<open>The loop of \<^verbatim>\<open>applyInputFilters\<close>, one filter at a time\<close>

lemma typeof_string: "typeof v = ''string'' \<longleftrightarrow> (\<exists>s. v = JString s)"
  by (cases v) auto

text \<open>An await never continues with a promise: the check for one after the await sees none.\<close>

lemma await_no_promise: "await r \<noteq> Fulfilled (JPromise p)"
  by (induction r rule: await.induct) auto

lemma switch_no_call: "switch_filtered v s = (es, fl) \<Longrightarrow> Call k s' m' \<notin> set es"
  by (cases "(v, s)" rule: switch_filtered.cases)
     (auto simp: error_def Let_def split: if_splits)

lemma switch_next_silent: "switch_filtered v s = (es, Next t) \<Longrightarrow> es = []"
  by (cases "(v, s)" rule: switch_filtered.cases)
     (auto simp: error_def Let_def split: if_splits jsval.splits)

lemma switch_reported:
  "reported v \<Longrightarrow>
   switch_filtered v s =
     ([Error (report_message v)], Exit (Throw (ErrorThrown (report_message v))))"
  by (cases v) (auto simp: report_message_def error_def Let_def)

lemma switch_true_or_string:
  assumes "true_or_string (Some v)"
  shows "switch_filtered v s = ([], Next (case v of JString t \<Rightarrow> t | _ \<Rightarrow> s))"
  using assms by (cases "Some v" rule: true_or_string.cases) auto

lemma loop_none:
  assumes "resolved_return f fin (filter_meta meta fin orig) = None"
  shows "\<exists>es c. filter_loop (f # fs) i orig meta fin =
                  (Call i fin (filter_meta meta fin orig) # es, c)
           \<and> set es \<subseteq> {Unblock} \<and> (\<forall>v. c \<noteq> Return v)"
  using assms
  by (auto simp: resolved_return_def Let_def split: call_result.splits settled.splits)

lemma loop_exit:
  assumes "resolved_return f fin (filter_meta meta fin orig) = Some v"
      and "switch_filtered v fin = (es, Exit c)"
  shows "filter_loop (f # fs) i orig meta fin =
           ([Call i fin (filter_meta meta fin orig), Unblock] @ es, c)"
  using assms
  by (auto simp: resolved_return_def Let_def split: call_result.splits settled.splits)

lemma loop_next:
  assumes "resolved_return f fin (filter_meta meta fin orig) = Some v"
      and "switch_filtered v fin = (es, Next t)"
  shows "filter_loop (f # fs) i orig meta fin =
           (case filter_loop fs (Suc i) orig meta t of
              (rest, c) \<Rightarrow> ([Call i fin (filter_meta meta fin orig), Unblock] @ rest, c))"
  using assms switch_next_silent [OF assms(2)]
  by (auto simp: resolved_return_def Let_def split: call_result.splits settled.splits)

text \<open>The loop started at index \<open>i\<close> calls filters of the indices \<open>i\<close> to \<open>i + length fs - 1\<close> only.\<close>

lemma call_index:
  "Call j s m \<in> set (fst (filter_loop fs i orig meta fin)) \<Longrightarrow> i \<le> j \<and> j < i + length fs"
proof (induction fs arbitrary: i fin)
  case Nil
  then show ?case by simp
next
  case (Cons f fs)
  let ?m = "filter_meta meta fin orig"
  show ?case
  proof (cases "resolved_return f fin ?m")
    case None
    from loop_none [OF None, of fs i] Cons.prems show ?thesis by auto
  next
    case (Some v)
    obtain es fl where sw: "switch_filtered v fin = (es, fl)"
      by (cases "switch_filtered v fin")
    show ?thesis
    proof (cases fl)
      case (Exit c)
      with loop_exit [OF Some, of es c fs i] sw Cons.prems switch_no_call [OF sw]
      show ?thesis by auto
    next
      case (Next t)
      obtain rest c where r: "filter_loop fs (Suc i) orig meta t = (rest, c)"
        by (cases "filter_loop fs (Suc i) orig meta t")
      with loop_next [OF Some, of es t fs i] sw Next Cons.prems
      have "Call j s m = Call i fin ?m \<or> Call j s m \<in> set rest" by auto
      then show ?thesis
      proof
        assume "Call j s m = Call i fin ?m"
        then show ?thesis by simp
      next
        assume "Call j s m \<in> set rest"
        with Cons.IH [of "Suc i" t] r show ?thesis by simp
      qed
    qed
  qed
qed

text \<open>
  A run that called the filter of index \<open>j\<close>, where that call came to a value on which
  the switch leaves the function, ends right there: with what the switch emitted and
  with the completion the switch chose. All earlier calls are of lower indices.
\<close>

lemma loop_reaches:
  assumes "filter_loop fs i orig meta fin = (tr, c)"
      and "Call j s m \<in> set tr"
      and "resolved_return (fs ! (j - i)) s m = Some v"
      and "switch_filtered v s = (es, Exit c')"
  shows "c = c' \<and> (\<exists>pre. tr = pre @ [Call j s m, Unblock] @ es \<and>
            (\<forall>k s' m'. Call k s' m' \<in> set pre \<longrightarrow> k < j))"
  using assms
proof (induction fs arbitrary: i fin tr c)
  case Nil
  then show ?case by auto
next
  case (Cons f fs)
  let ?m = "filter_meta meta fin orig"
  show ?case
  proof (cases "resolved_return f fin ?m")
    case None
    from loop_none [OF None, of fs i] Cons.prems(1,2)
    have "j = i" "s = fin" "m = ?m" by auto
    with None Cons.prems(3) show ?thesis by simp
  next
    case (Some w)
    obtain es0 fl where sw: "switch_filtered w fin = (es0, fl)"
      by (cases "switch_filtered w fin")
    show ?thesis
    proof (cases fl)
      case (Exit c0)
      from loop_exit [OF Some, of es0 c0 fs i] sw Exit Cons.prems(1)
      have tr: "tr = [Call i fin ?m, Unblock] @ es0" and c: "c = c0" by auto
      with Cons.prems(2) switch_no_call [OF sw]
      have here: "j = i" "s = fin" "m = ?m" by auto
      with Some Cons.prems(3) have "w = v" by simp
      with sw Exit Cons.prems(4) here have "es0 = es" "c0 = c'" by auto
      with tr c here show ?thesis by auto
    next
      case (Next t)
      obtain rest c1 where r: "filter_loop fs (Suc i) orig meta t = (rest, c1)"
        by (cases "filter_loop fs (Suc i) orig meta t")
      from loop_next [OF Some, of es0 t fs i] sw Next Cons.prems(1) r
      have tr: "tr = [Call i fin ?m, Unblock] @ rest" and c: "c = c1" by auto
      have "Call j s m \<noteq> Call i fin ?m"
      proof
        assume "Call j s m = Call i fin ?m"
        then have "j = i" "s = fin" "m = ?m" by auto
        with Some Cons.prems(3) have "w = v" by simp
        with sw Next Cons.prems(4) \<open>s = fin\<close> show False by simp
      qed
      with tr Cons.prems(2) have later: "Call j s m \<in> set rest" by auto
      with call_index [of j s m fs "Suc i" orig meta t] r have "Suc i \<le> j" by simp
      then have "j - i = Suc (j - Suc i)" by arith
      then have idx: "(f # fs) ! (j - i) = fs ! (j - Suc i)" by simp
      from Cons.IH [OF r later _ Cons.prems(4)] idx Cons.prems(3)
      obtain pre where pre: "c1 = c'" "rest = pre @ [Call j s m, Unblock] @ es"
        "\<forall>k s' m'. Call k s' m' \<in> set pre \<longrightarrow> k < j"
        by auto
      have "tr = ([Call i fin ?m, Unblock] @ pre) @ [Call j s m, Unblock] @ es"
        using tr pre(2) by simp
      moreover have "\<forall>k s' m'. Call k s' m' \<in> set ([Call i fin ?m, Unblock] @ pre) \<longrightarrow> k < j"
        using pre(3) \<open>Suc i \<le> j\<close> by auto
      ultimately show ?thesis using c pre(1) by blast
    qed
  qed
qed

lemma final_input_Cons:
  "final_input (f # fs) orig meta s = final_input fs orig meta (next_input f orig meta s)"
  by (simp add: final_input_def)

lemma loop_sequential:
  "none_cancels fs orig meta fin \<Longrightarrow>
   filter_loop fs i orig meta fin =
     (concat (map (\<lambda>(k, s). [Call k s (filter_meta meta s orig), Unblock])
                (zip [i..<i + length fs] (threaded fs orig meta fin))) @ [Unblock],
      Return (JString (final_input fs orig meta fin)))"
proof (induction fs arbitrary: i fin)
  case Nil
  then show ?case by (simp add: final_input_def)
next
  case (Cons f fs)
  let ?m = "filter_meta meta fin orig"
  from Cons.prems obtain v
    where v: "resolved_return f fin ?m = Some v" "true_or_string (Some v)"
    by (cases "resolved_return f fin ?m") auto
  have nxt: "next_input f orig meta fin = (case v of JString t \<Rightarrow> t | _ \<Rightarrow> fin)"
    using v(1) by (simp add: next_input_def)
  from Cons.prems have rest: "none_cancels fs orig meta (next_input f orig meta fin)"
    by simp
  have upt: "[i..<Suc (i + length fs)] = i # [Suc i..<Suc (i + length fs)]"
    by (rule upt_conv_Cons) simp
  have sw: "switch_filtered v fin = ([], Next (next_input f orig meta fin))"
    using switch_true_or_string [OF v(2), of fin] nxt by simp
  from loop_next [OF v(1) sw, of fs i] Cons.IH [OF rest, of "Suc i"]
  have "filter_loop (f # fs) i orig meta fin =
     ([Call i fin ?m, Unblock] @
      concat (map (\<lambda>(k, s). [Call k s (filter_meta meta s orig), Unblock])
                (zip [Suc i..<Suc (i + length fs)]
                   (threaded fs orig meta (next_input f orig meta fin)))) @ [Unblock],
      Return (JString (final_input fs orig meta (next_input f orig meta fin))))"
    by (simp del: filter_loop.simps)
  then show ?case
    by (simp add: upt final_input_Cons del: upt_Suc filter_loop.simps)
qed

lemma nullish_step:
  assumes "resolved_return f s (filter_meta meta s orig) = Some JUndefined \<or>
           resolved_return f s (filter_meta meta s orig) = Some JNull"
  shows "filter_loop (f # fs) i orig meta s =
           (case filter_loop fs (Suc i) orig meta s of
              (rest, c) \<Rightarrow> ([Call i s (filter_meta meta s orig), Unblock] @ rest, c))"
  using assms
proof
  assume a: "resolved_return f s (filter_meta meta s orig) = Some JUndefined"
  have sw: "switch_filtered JUndefined s = ([], Next s)" by simp
  show ?thesis using loop_next [OF a sw, of fs i] by simp
next
  assume a: "resolved_return f s (filter_meta meta s orig) = Some JNull"
  have sw: "switch_filtered JNull s = ([], Next s)" by simp
  show ?thesis using loop_next [OF a sw, of fs i] by simp
qed

lemma true_step:
  "filter_loop ((\<lambda>s m. Returns (JBool True)) # fs) i orig meta s =
     (case filter_loop fs (Suc i) orig meta s of
        (rest, c) \<Rightarrow> ([Call i s (filter_meta meta s orig), Unblock] @ rest, c))"
  by simp

lemma loop_head_cong:
  assumes "f fin (filter_meta meta fin orig) = g fin (filter_meta meta fin orig)"
  shows "filter_loop (f # fs) i orig meta fin = filter_loop (g # fs) i orig meta fin"
  using assms by (simp add: Let_def)

lemma loop_tail_cong:
  assumes "\<And>i fin. filter_loop fs i orig meta fin = filter_loop gs i orig meta fin"
  shows "filter_loop (f # fs) i orig meta fin = filter_loop (f # gs) i orig meta fin"
  using assms
  by (simp add: Let_def split: call_result.splits settled.splits prod.splits flow.splits)

lemma nullish_head:
  "filter_loop (nullish_as_true f # fs) i orig meta fin = filter_loop (f # fs) i orig meta fin"
proof (cases "resolved_return f fin (filter_meta meta fin orig) = Some JUndefined \<or>
              resolved_return f fin (filter_meta meta fin orig) = Some JNull")
  case True
  then have "resolved_return (nullish_as_true f) fin (filter_meta meta fin orig) = Some (JBool True)"
    by (auto simp: nullish_as_true_def resolved_return_def)
  moreover have "switch_filtered (JBool True) fin = ([], Next fin)" by simp
  ultimately show ?thesis
    using loop_next [of "nullish_as_true f" fin meta orig "JBool True" "[]" fin fs i]
      nullish_step [OF True, of fs i]
    by simp
next
  case False
  then have "nullish_as_true f fin (filter_meta meta fin orig) = f fin (filter_meta meta fin orig)"
    by (auto simp: nullish_as_true_def)
  then show ?thesis by (rule loop_head_cong)
qed

lemma nullish_map:
  "filter_loop (map nullish_as_true fs) i orig meta fin = filter_loop fs i orig meta fin"
proof (induction fs arbitrary: i fin)
  case Nil
  show ?case by simp
next
  case (Cons f fs)
  have "filter_loop (map nullish_as_true (f # fs)) i orig meta fin =
        filter_loop (nullish_as_true f # fs) i orig meta fin"
    using loop_tail_cong [of "map nullish_as_true fs" orig meta fs] Cons.IH by simp
  then show ?case by (simp only: nullish_head)
qed

subsection \<open>The loop over the live array\<close>

text \<open>A run that ends keeps its result when it is given more fuel.\<close>

lemma live_loop_more_fuel:
  "live_loop n body fs i orig meta fin = Some r \<Longrightarrow>
   live_loop (Suc n) body fs i orig meta fin = Some r"
proof (induction n arbitrary: fs i fin r)
  case 0
  then show ?case by simp
next
  case (Suc n)
  show ?case
  proof (cases "i < length fs")
    case False
    with Suc.prems show ?thesis by simp
  next
    case True
    let ?m = "filter_meta meta fin orig"
    obtain res fs' where b: "body (fs ! i) fin ?m fs = (res, fs')"
      by (cases "body (fs ! i) fin ?m fs")
    show ?thesis
    proof (cases res)
      case (Throws e)
      with Suc.prems True b show ?thesis by (simp add: Let_def)
    next
      case (Returns v)
      show ?thesis
      proof (cases "await v")
        case Pending
        with Suc.prems True b Returns show ?thesis by (simp add: Let_def)
      next
        case (Rejected e)
        with Suc.prems True b Returns show ?thesis by (simp add: Let_def)
      next
        case (Fulfilled w)
        obtain es fl where sw: "switch_filtered w fin = (es, fl)"
          by (cases "switch_filtered w fin")
        show ?thesis
        proof (cases fl)
          case (Exit c)
          with Suc.prems True b Returns Fulfilled sw show ?thesis by (simp add: Let_def)
        next
          case (Next t)
          with Suc.prems True b Returns Fulfilled sw
          obtain r' where inner: "live_loop n body fs' (Suc i) orig meta t = Some r'"
            by (cases "live_loop n body fs' (Suc i) orig meta t") (auto simp: Let_def)
          from Suc.IH [OF inner]
          have more: "live_loop (Suc n) body fs' (Suc i) orig meta t = Some r'" .
          have "live_loop (Suc (Suc n)) body fs i orig meta fin =
                (case live_loop (Suc n) body fs' (Suc i) orig meta t of
                   None \<Rightarrow> None
                 | Some (rest, c, fs'') \<Rightarrow>
                     Some ([Call i fin ?m, Unblock] @ es @ rest, c, fs''))"
            using True b Returns Fulfilled sw Next
            by (simp add: live_loop.simps(2) [of "Suc n"] Let_def del: live_loop.simps)
          moreover have "live_loop (Suc n) body fs i orig meta fin =
                (case live_loop n body fs' (Suc i) orig meta t of
                   None \<Rightarrow> None
                 | Some (rest, c, fs'') \<Rightarrow>
                     Some ([Call i fin ?m, Unblock] @ es @ rest, c, fs''))"
            using True b Returns Fulfilled sw Next
            by (simp add: live_loop.simps(2) [of n] Let_def del: live_loop.simps)
          ultimately show ?thesis using Suc.prems inner more by simp
        qed
      qed
    qed
  qed
qed

text \<open>
  When no filter changes the array, the loop over the live array is \<open>filter_loop\<close>
  over the filters from the index on, it ends with the fuel of one unit more than
  there are filters left, and it leaves the array as it was.
\<close>

lemma live_loop_fixed:
  "length fs - i < n \<Longrightarrow>
   live_loop n (leaves_list behaviour) fs i orig meta fin =
     Some (case filter_loop (map behaviour (drop i fs)) i orig meta fin of
             (es, c) \<Rightarrow> (es, c, fs))"
proof (induction n arbitrary: i fin)
  case 0
  then show ?case by simp
next
  case (Suc n)
  show ?case
  proof (cases "i < length fs")
    case False
    then show ?thesis by simp
  next
    case True
    then have drop: "drop i fs = fs ! i # drop (Suc i) fs"
      by (simp add: Cons_nth_drop_Suc)
    from True Suc.prems have "length fs - Suc i < n" by arith
    note IH = Suc.IH [OF this]
    show ?thesis
      using True
      by (simp add: drop leaves_list_def [of behaviour] Let_def IH [unfolded leaves_list_def]
          split: call_result.splits settled.splits prod.splits flow.splits)
  qed
qed

lemma applyInputFilters_live_fixed:
  "applyInputFilters_live (Suc (length fs)) (leaves_list (\<lambda>f. f)) fs orig meta =
     Some (case applyInputFilters fs orig meta of (es, c) \<Rightarrow> (es, c, fs))"
  using live_loop_fixed [of fs 0 "Suc (length fs)" "\<lambda>f. f" orig meta orig]
  by (simp add: applyInputFilters_live_def applyInputFilters_def split: prod.splits)

subsection \<open>\<^verbatim>\<open>applyInputFilters\<close>\<close>

text \<open>
  C1. During \<^verbatim>\<open>applyInputFilters\<close> input is to be disabled for the whole of the filter
  evaluation, at no point enabled while a registered filter is still pending, and
  enabled again once the routine has finished. The code says so itself ("block the UI
  while filters run"), but the \<^verbatim>\<open>finally\<close> block inside the loop calls
  \<^verbatim>\<open>unblock()\<close> after the first filter already. With two filters that both return
  \<^verbatim>\<open>true\<close>, the second filter is called, and is pending, with input enabled.
\<close>

theorem applyInputFilters_unblocks_before_second_filter:
  "applyInputFilters [\<lambda>s m. Returns (JBool True), \<lambda>s m. Returns (JBool True)] ''look'' typed_meta =
     ([Block,
       Call 0 ''look'' (filter_meta typed_meta ''look'' ''look''), Unblock,
       Call 1 ''look'' (filter_meta typed_meta ''look'' ''look''), Unblock,
       Unblock],
      Return (JString ''look'')) \<and>
   \<not> ui_blocked False
       [Block, Call 0 ''look'' (filter_meta typed_meta ''look'' ''look''), Unblock,
        Call 1 ''look'' (filter_meta typed_meta ''look'' ''look'')] \<and>
   \<not> blocked_while_pending False
       (fst (applyInputFilters [\<lambda>s m. Returns (JBool True), \<lambda>s m. Returns (JBool True)]
          ''look'' typed_meta))"
  by (simp add: applyInputFilters_def)

text \<open>
  C2, as amended. A filter whose return value, promises resolved, is not
  \<^verbatim>\<open>undefined\<close>, \<^verbatim>\<open>null\<close>, a boolean or a string is reported through \<^verbatim>\<open>error\<close>:
  the message ("Input filter returned a value of type ...", or the message about a
  promise for an object with a \<^verbatim>\<open>then\<close> property) is logged right after the
  filter's await. \<^verbatim>\<open>error\<close> throws, so \<^verbatim>\<open>applyInputFilters\<close> ends there with
  that exception: the filters registered after the offending one are not called, and
  every call made before it is of a lower index.
\<close>

theorem applyInputFilters_reports_and_throws:
  assumes "Call i s m \<in> set (fst (applyInputFilters fs orig meta))"
      and "resolved_return (fs ! i) s m = Some v"
      and "reported v"
  shows "i < length fs \<and>
         snd (applyInputFilters fs orig meta) = Throw (ErrorThrown (report_message v)) \<and>
         (\<exists>pre. fst (applyInputFilters fs orig meta) =
                  pre @ [Call i s m, Unblock, Error (report_message v)] \<and>
                (\<forall>k s' m'. Call k s' m' \<in> set pre \<longrightarrow> k < i))"
proof -
  obtain tr c where run: "filter_loop fs 0 orig meta orig = (tr, c)"
    by (cases "filter_loop fs 0 orig meta orig")
  then have app: "applyInputFilters fs orig meta = (Block # tr, c)"
    by (simp add: applyInputFilters_def)
  with assms(1) have mem: "Call i s m \<in> set tr" by simp
  with call_index [of i s m fs 0 orig meta orig] run have bound: "i < length fs" by simp
  from loop_reaches [OF run mem _ switch_reported [OF assms(3)]] assms(2)
  obtain pre where pre: "c = Throw (ErrorThrown (report_message v))"
    "tr = pre @ [Call i s m, Unblock, Error (report_message v)]"
    "\<forall>k s' m'. Call k s' m' \<in> set pre \<longrightarrow> k < i"
    by auto
  have "fst (applyInputFilters fs orig meta) =
          (Block # pre) @ [Call i s m, Unblock, Error (report_message v)]"
    using app pre(2) by simp
  moreover have "\<forall>k s' m'. Call k s' m' \<in> set (Block # pre) \<longrightarrow> k < i"
    using pre(3) by simp
  ultimately show ?thesis using bound app pre(1) by (metis snd_conv)
qed

theorem applyInputFilters_reports_and_throws_witness:
  "Call 0 ''look'' (filter_meta typed_meta ''look'' ''look'')
     \<in> set (fst (applyInputFilters
          [\<lambda>s m. Returns (JPromise (ResolvedWith (JNumber 5))), \<lambda>s m. Returns (JBool True)]
          ''look'' typed_meta)) \<and>
   resolved_return
     ([\<lambda>s m. Returns (JPromise (ResolvedWith (JNumber 5))), \<lambda>s m. Returns (JBool True)] ! 0)
     ''look'' (filter_meta typed_meta ''look'' ''look'') = Some (JNumber 5) \<and>
   reported (JNumber 5) \<and>
   snd (applyInputFilters
          [\<lambda>s m. Returns (JPromise (ResolvedWith (JNumber 5))), \<lambda>s m. Returns (JBool True)]
          ''look'' typed_meta)
     = Throw (ErrorThrown ''Input filter returned a value of type number'')"
proof -
  let ?fs = "[\<lambda>s m. Returns (JPromise (ResolvedWith (JNumber 5))), \<lambda>s m. Returns (JBool True)]"
  let ?m = "filter_meta typed_meta ''look'' ''look''"
  have called: "Call 0 ''look'' ?m \<in> set (fst (applyInputFilters ?fs ''look'' typed_meta))"
    by (simp add: applyInputFilters_def error_def Let_def)
  have came_to: "resolved_return (?fs ! 0) ''look'' ?m = Some (JNumber 5)"
    by (simp add: resolved_return_def)
  have bad: "reported (JNumber 5)" by simp
  have msg: "report_message (JNumber 5) = ''Input filter returned a value of type number''"
    by (simp add: report_message_def)
  from applyInputFilters_reports_and_throws [OF called came_to bad] called came_to bad msg
  show ?thesis by simp
qed

text \<open>
  C2 as the specification has it (the problem is logged, nothing is thrown, and the
  remaining filters go on with the last valid input) fails: after a filter that returns
  the number 5 the run ends with the exception of \<^verbatim>\<open>error\<close>, and the second filter
  is never called.
\<close>

theorem applyInputFilters_number_throws:
  "snd (applyInputFilters [\<lambda>s m. Returns (JNumber 5), \<lambda>s m. Returns (JBool True)]
          ''look'' typed_meta)
     = Throw (ErrorThrown ''Input filter returned a value of type number'') \<and>
   called (fst (applyInputFilters [\<lambda>s m. Returns (JNumber 5), \<lambda>s m. Returns (JBool True)]
          ''look'' typed_meta)) = [0]"
  by (simp add: applyInputFilters_def error_def Let_def)

text \<open>
  C3. If a registered filter returns \<^verbatim>\<open>false\<close>, or a promise that resolves to
  \<^verbatim>\<open>false\<close>, \<^verbatim>\<open>applyInputFilters\<close> stops at once: the call of that filter and the
  \<^verbatim>\<open>unblock()\<close> after its await are the last things that happen, no filter registered
  later is called (every other call is of a lower index), and the routine returns
  \<^verbatim>\<open>false\<close>.
\<close>

theorem applyInputFilters_false_cancels:
  assumes "Call i s m \<in> set (fst (applyInputFilters fs orig meta))"
      and "resolved_return (fs ! i) s m = Some (JBool False)"
  shows "i < length fs \<and>
         snd (applyInputFilters fs orig meta) = Return (JBool False) \<and>
         (\<exists>pre. fst (applyInputFilters fs orig meta) = pre @ [Call i s m, Unblock] \<and>
                (\<forall>k s' m'. Call k s' m' \<in> set pre \<longrightarrow> k < i))"
proof -
  obtain tr c where run: "filter_loop fs 0 orig meta orig = (tr, c)"
    by (cases "filter_loop fs 0 orig meta orig")
  then have app: "applyInputFilters fs orig meta = (Block # tr, c)"
    by (simp add: applyInputFilters_def)
  with assms(1) have mem: "Call i s m \<in> set tr" by simp
  with call_index [of i s m fs 0 orig meta orig] run have bound: "i < length fs" by simp
  have sw: "switch_filtered (JBool False) s = ([], Exit (Return (JBool False)))" by simp
  from loop_reaches [OF run mem _ sw] assms(2)
  obtain pre where pre: "c = Return (JBool False)" "tr = pre @ [Call i s m, Unblock]"
    "\<forall>k s' m'. Call k s' m' \<in> set pre \<longrightarrow> k < i"
    by auto
  have "fst (applyInputFilters fs orig meta) = (Block # pre) @ [Call i s m, Unblock]"
    using app pre(2) by simp
  moreover have "\<forall>k s' m'. Call k s' m' \<in> set (Block # pre) \<longrightarrow> k < i"
    using pre(3) by simp
  ultimately show ?thesis using bound app pre(1) by (metis snd_conv)
qed

theorem applyInputFilters_false_cancels_witness:
  "Call 1 ''look!'' (filter_meta typed_meta ''look!'' ''look'')
     \<in> set (fst (applyInputFilters
          [\<lambda>s m. Returns (JString (s @ ''!'')),
           \<lambda>s m. Returns (JPromise (ResolvedWith (JBool False))),
           \<lambda>s m. Throws JNull]
          ''look'' typed_meta)) \<and>
   resolved_return
     ([\<lambda>s m. Returns (JString (s @ ''!'')),
       \<lambda>s m. Returns (JPromise (ResolvedWith (JBool False))),
       \<lambda>s m. Throws JNull] ! 1)
     ''look!'' (filter_meta typed_meta ''look!'' ''look'') = Some (JBool False) \<and>
   snd (applyInputFilters
          [\<lambda>s m. Returns (JString (s @ ''!'')),
           \<lambda>s m. Returns (JPromise (ResolvedWith (JBool False))),
           \<lambda>s m. Throws JNull]
          ''look'' typed_meta) = Return (JBool False) \<and>
   called (fst (applyInputFilters
          [\<lambda>s m. Returns (JString (s @ ''!'')),
           \<lambda>s m. Returns (JPromise (ResolvedWith (JBool False))),
           \<lambda>s m. Throws JNull]
          ''look'' typed_meta)) = [0, 1]"
proof -
  let ?fs = "[\<lambda>s m. Returns (JString (s @ ''!'')),
              \<lambda>s m. Returns (JPromise (ResolvedWith (JBool False))),
              \<lambda>s m. Throws JNull]"
  let ?m = "filter_meta typed_meta ''look!'' ''look''"
  have called: "Call 1 ''look!'' ?m \<in> set (fst (applyInputFilters ?fs ''look'' typed_meta))"
    by (simp add: applyInputFilters_def)
  have came_to: "resolved_return (?fs ! 1) ''look!'' ?m = Some (JBool False)"
    by (simp add: resolved_return_def)
  have order: "called (fst (applyInputFilters ?fs ''look'' typed_meta)) = [0, 1]"
    by (simp add: applyInputFilters_def)
  from applyInputFilters_false_cancels [OF called came_to] called came_to order
  show ?thesis by simp
qed

text \<open>
  C4. \<^verbatim>\<open>applyInputFilters\<close> is to apply the registered filters one after the other,
  in the order of registration, each on the current input, and to return the string
  that comes out of the last one when no filter cancels (its doc comment: "Runs input
  through all input filters"). The loop counts an index over the array as it is in
  each iteration, and \<^verbatim>\<open>removeInputFilter\<close> splices that array in place. So when
  the first of two filters removes itself during its call (it calls the closure that
  \<^verbatim>\<open>addInputFilter\<close> gave it) and returns \<^verbatim>\<open>true\<close>, the second filter has moved to
  index 0, the loop goes on at index 1 and ends: the second filter, registered all
  along, is never called, and the input comes back without the \<^verbatim>\<open>!\<close> that filter
  appends. This is so for every amount of fuel that lets the run end.
\<close>

theorem applyInputFilters_live_skips_filter:
  "applyInputFilters_live (Suc (Suc n))
     (\<lambda>f s m inputFilters.
        if f = (0::nat) then (Returns (JBool True), snd (removeInputFilter f inputFilters))
        else (Returns (JString (s @ ''!'')), inputFilters))
     [0, 1] ''look'' typed_meta =
   Some ([Block, Call 0 ''look'' (filter_meta typed_meta ''look'' ''look''), Unblock, Unblock],
         Return (JString ''look''), [1])"
  by (simp add: applyInputFilters_live_def removeInputFilter_def array_splice_def Let_def)

text \<open>
  The same two filters when the first one leaves the array alone: both are called, in
  order, and the second one's string is returned.
\<close>

lemma applyInputFilters_live_both_filters:
  "applyInputFilters_live (Suc (Suc (Suc n)))
     (\<lambda>f s m inputFilters.
        if f = (0::nat) then (Returns (JBool True), inputFilters)
        else (Returns (JString (s @ ''!'')), inputFilters))
     [0, 1] ''look'' typed_meta =
   Some ([Block, Call 0 ''look'' (filter_meta typed_meta ''look'' ''look''), Unblock,
          Call 1 ''look'' (filter_meta typed_meta ''look'' ''look''), Unblock, Unblock],
         Return (JString ''look!''), [0, 1])"
  by (simp add: applyInputFilters_live_def Let_def)

text \<open>
  Sequential application when no filter changes the list during the run: the
  filters are applied one after the other, in the order of registration, each awaited
  before the next is called. Each filter
  receives the current input; a string it returns (or resolves to) is the input of the
  filters after it, \<^verbatim>\<open>true\<close> leaves the input as it is; when no filter cancels, the
  routine returns the string that comes out of the last filter. The events of such a
  run are: \<^verbatim>\<open>block\<close>, then for every index in turn the call of that filter on its
  input, followed by the \<^verbatim>\<open>unblock\<close> that ends its await, then the last
  \<^verbatim>\<open>unblock\<close>.
\<close>

theorem applyInputFilters_sequential:
  assumes "none_cancels fs orig meta orig"
  shows "applyInputFilters fs orig meta =
     (Block #
      concat (map (\<lambda>(k, s). [Call k s (filter_meta meta s orig), Unblock])
                (zip [0..<length fs] (threaded fs orig meta orig))) @ [Unblock],
      Return (JString (final_input fs orig meta orig)))"
  using loop_sequential [OF assms, of 0] by (simp add: applyInputFilters_def)

theorem applyInputFilters_sequential_witness:
  "none_cancels
     [\<lambda>s m. Returns (JString (s @ ''!'')),
      \<lambda>s m. Returns (JPromise (ResolvedWith (JBool True))),
      \<lambda>s m. Returns (JPromise (ResolvedWith (JString (''say '' @ s))))]
     ''look'' typed_meta ''look'' \<and>
   applyInputFilters
     [\<lambda>s m. Returns (JString (s @ ''!'')),
      \<lambda>s m. Returns (JPromise (ResolvedWith (JBool True))),
      \<lambda>s m. Returns (JPromise (ResolvedWith (JString (''say '' @ s))))]
     ''look'' typed_meta =
     ([Block,
       Call 0 ''look'' (filter_meta typed_meta ''look'' ''look''), Unblock,
       Call 1 ''look!'' (filter_meta typed_meta ''look!'' ''look''), Unblock,
       Call 2 ''look!'' (filter_meta typed_meta ''look!'' ''look''), Unblock,
       Unblock],
      Return (JString ''say look!''))"
proof -
  let ?fs = "[\<lambda>s m. Returns (JString (s @ ''!'')),
              \<lambda>s m. Returns (JPromise (ResolvedWith (JBool True))),
              \<lambda>s m. Returns (JPromise (ResolvedWith (JString (''say '' @ s))))]"
  have passes: "none_cancels ?fs ''look'' typed_meta ''look''"
    by (simp add: resolved_return_def next_input_def)
  have inputs: "threaded ?fs ''look'' typed_meta ''look'' = [''look'', ''look!'', ''look!'']"
    by (simp add: resolved_return_def next_input_def)
  have final: "final_input ?fs ''look'' typed_meta ''look'' = ''say look!''"
    by (simp add: final_input_def resolved_return_def next_input_def)
  have indices: "[0..<length ?fs] = [0, 1, 2]"
    by (simp add: upt_rec)
  from applyInputFilters_sequential [OF passes] passes
  show ?thesis
    by (simp only: inputs final indices) simp
qed

text \<open>
  C8. A filter that returns a promise resolving to another promise is to be reported
  through the logging call (the code has the message for it). It is not: the await has
  followed the inner promise to its value before the check for a \<^verbatim>\<open>then\<close> property
  runs, so the check sees the string, nothing is logged, and the string replaces the
  input.
\<close>

theorem applyInputFilters_unwraps_nested_promise:
  "applyInputFilters
     [\<lambda>s m. Returns (JPromise (ResolvedWith (JPromise (ResolvedWith (JString ''jump'')))))]
     ''look'' typed_meta =
     ([Block, Call 0 ''look'' (filter_meta typed_meta ''look'' ''look''), Unblock, Unblock],
      Return (JString ''jump''))"
  by (simp add: applyInputFilters_def)

text \<open>
  C10. A filter that returns \<^verbatim>\<open>undefined\<close> or \<^verbatim>\<open>null\<close>, or a promise resolving to
  one of them, is treated exactly like one returning \<^verbatim>\<open>true\<close>. Replacing every such
  answer of every filter by \<^verbatim>\<open>true\<close> changes neither the events of a run nor its
  result; and at such a filter the run emits the call and the \<^verbatim>\<open>unblock\<close> only (no
  error message) and goes on with the remaining filters on the same input.
\<close>

theorem applyInputFilters_nullish_like_true:
  "applyInputFilters (map nullish_as_true fs) orig meta = applyInputFilters fs orig meta \<and>
   (resolved_return f s (filter_meta meta s orig) = Some JUndefined \<or>
    resolved_return f s (filter_meta meta s orig) = Some JNull \<longrightarrow>
      filter_loop (f # fs) i orig meta s =
        (case filter_loop fs (Suc i) orig meta s of
           (rest, c) \<Rightarrow> ([Call i s (filter_meta meta s orig), Unblock] @ rest, c)) \<and>
      filter_loop (f # fs) i orig meta s =
        filter_loop ((\<lambda>s m. Returns (JBool True)) # fs) i orig meta s)"
proof (intro conjI impI)
  show "applyInputFilters (map nullish_as_true fs) orig meta = applyInputFilters fs orig meta"
    by (simp add: applyInputFilters_def nullish_map)
next
  assume nullish: "resolved_return f s (filter_meta meta s orig) = Some JUndefined \<or>
    resolved_return f s (filter_meta meta s orig) = Some JNull"
  show "filter_loop (f # fs) i orig meta s =
        (case filter_loop fs (Suc i) orig meta s of
           (rest, c) \<Rightarrow> ([Call i s (filter_meta meta s orig), Unblock] @ rest, c))"
    by (rule nullish_step [OF nullish])
  show "filter_loop (f # fs) i orig meta s =
        filter_loop ((\<lambda>s m. Returns (JBool True)) # fs) i orig meta s"
    using nullish_step [OF nullish, of fs i] true_step [of fs i orig meta s]
    by simp
qed

theorem applyInputFilters_nullish_like_true_witness:
  "resolved_return (\<lambda>s m. Returns (JPromise (ResolvedWith JUndefined)))
     ''look'' (filter_meta typed_meta ''look'' ''look'') = Some JUndefined \<and>
   filter_loop
     [\<lambda>s m. Returns (JPromise (ResolvedWith JUndefined)), \<lambda>s m. Returns (JString (s @ ''!''))]
     0 ''look'' typed_meta ''look'' =
     ([Call 0 ''look'' (filter_meta typed_meta ''look'' ''look''), Unblock,
       Call 1 ''look'' (filter_meta typed_meta ''look'' ''look''), Unblock,
       Unblock],
      Return (JString ''look!'')) \<and>
   filter_loop
     [\<lambda>s m. Returns (JBool True), \<lambda>s m. Returns (JString (s @ ''!''))]
     0 ''look'' typed_meta ''look'' =
     ([Call 0 ''look'' (filter_meta typed_meta ''look'' ''look''), Unblock,
       Call 1 ''look'' (filter_meta typed_meta ''look'' ''look''), Unblock,
       Unblock],
      Return (JString ''look!''))"
proof -
  let ?f = "\<lambda>(s::string) (m::InputFilterMeta). Returns (JPromise (ResolvedWith JUndefined))"
  let ?g = "\<lambda>(s::string) (m::InputFilterMeta). Returns (JString (s @ ''!''))"
  have nullish: "resolved_return ?f ''look'' (filter_meta typed_meta ''look'' ''look'') = Some JUndefined"
    by (simp add: resolved_return_def)
  have rest: "filter_loop [?g] 1 ''look'' typed_meta ''look'' =
      ([Call 1 ''look'' (filter_meta typed_meta ''look'' ''look''), Unblock, Unblock],
       Return (JString ''look!''))"
    by simp
  from applyInputFilters_nullish_like_true
         [of "[?g]" "''look''" typed_meta ?f "''look''" 0] nullish
  have step: "filter_loop [?f, ?g] 0 ''look'' typed_meta ''look'' =
      (case filter_loop [?g] (Suc 0) ''look'' typed_meta ''look'' of
         (rest, c) \<Rightarrow>
           ([Call 0 ''look'' (filter_meta typed_meta ''look'' ''look''), Unblock] @ rest, c))"
    and same: "filter_loop [?f, ?g] 0 ''look'' typed_meta ''look'' =
      filter_loop [\<lambda>s m. Returns (JBool True), ?g] 0 ''look'' typed_meta ''look''"
    by blast+
  from step rest
  have first: "filter_loop [?f, ?g] 0 ''look'' typed_meta ''look'' =
      ([Call 0 ''look'' (filter_meta typed_meta ''look'' ''look''), Unblock,
        Call 1 ''look'' (filter_meta typed_meta ''look'' ''look''), Unblock,
        Unblock],
       Return (JString ''look!''))"
    by (simp del: filter_loop.simps)
  with same [symmetric] nullish show ?thesis
    by (simp del: filter_loop.simps)
qed

subsection \<open>The two queues\<close>

lemma fire_expectCommand: "fire ''expectCommand'' (init []) p = snd (runCommandQueue p)"
  by (simp add: init_def addEventListener_def)

lemma fire_expectKeypress: "fire ''expectKeypress'' (init []) p = snd (runKeyQueue p)"
  by (simp add: init_def addEventListener_def)

lemma runCommandQueue_Nil: "commandQueue p = [] \<Longrightarrow> runCommandQueue p = (JUndefined, p)"
  by (simp add: runCommandQueue_def)

lemma runCommandQueue_Cons:
  "commandQueue p = x # xs \<Longrightarrow>
   runCommandQueue p =
     (JBool False, p\<lparr>commandQueue := xs, engine := engine p @ [send_of x]\<rparr>)"
  by (simp add: runCommandQueue_def submit_def send_of_def Let_def)

lemma runKeyQueue_Nil: "keyQueue p = [] \<Longrightarrow> runKeyQueue p = (JBool True, p)"
  by (simp add: runKeyQueue_def)

lemma runKeyQueue_Cons:
  "keyQueue p = k # ks \<Longrightarrow>
   runKeyQueue p =
     (JBool False, p\<lparr>keyQueue := ks, engine := engine p @ [press_of k]\<rparr>)"
  by (simp add: runKeyQueue_def press_of_def Let_def)

lemma drain_commands:
  "commandQueue p = q \<Longrightarrow>
   (fire ''expectCommand'' (init []) ^^ length q) p =
     p\<lparr>commandQueue := [], engine := engine p @ map send_of q\<rparr>"
proof (induction q arbitrary: p)
  case Nil
  then show ?case by simp
next
  case (Cons x xs)
  let ?p1 = "p\<lparr>commandQueue := xs, engine := engine p @ [send_of x]\<rparr>"
  have one: "fire ''expectCommand'' (init []) p = ?p1"
    using runCommandQueue_Cons [OF Cons.prems] by (simp add: fire_expectCommand)
  have "commandQueue ?p1 = xs" by simp
  from Cons.IH [OF this] one show ?case
    by (simp add: funpow_swap1)
qed

lemma drain_keys:
  "keyQueue p = q \<Longrightarrow>
   (fire ''expectKeypress'' (init []) ^^ length q) p =
     p\<lparr>keyQueue := [], engine := engine p @ map press_of q\<rparr>"
proof (induction q arbitrary: p)
  case Nil
  then show ?case by simp
next
  case (Cons x xs)
  let ?p1 = "p\<lparr>keyQueue := xs, engine := engine p @ [press_of x]\<rparr>"
  have one: "fire ''expectKeypress'' (init []) p = ?p1"
    using runKeyQueue_Cons [OF Cons.prems] by (simp add: fire_expectKeypress)
  have "keyQueue ?p1 = xs" by simp
  from Cons.IH [OF this] one show ?case
    by (simp add: funpow_swap1)
qed

lemma sent_commands_append: "sent_commands (xs @ ys) = sent_commands xs @ sent_commands ys"
  by (induction xs rule: sent_commands.induct) auto

lemma sent_keys_append: "sent_keys (xs @ ys) = sent_keys xs @ sent_keys ys"
  by (induction xs rule: sent_keys.induct) auto

lemma run_commands_inv:
  "sent_commands (engine (snd (runCommandQueue p))) @ commandQueue (snd (runCommandQueue p)) =
   sent_commands (engine p) @ commandQueue p"
  by (cases "commandQueue p")
     (auto simp: runCommandQueue_def submit_def Let_def sent_commands_append)

lemma run_commands_keys:
  "sent_keys (engine (snd (runCommandQueue p))) = sent_keys (engine p) \<and>
   keyQueue (snd (runCommandQueue p)) = keyQueue p"
  by (cases "commandQueue p")
     (auto simp: runCommandQueue_def submit_def Let_def sent_keys_append)

lemma run_keys_inv:
  "sent_keys (engine (snd (runKeyQueue p))) @ map charCodeAt0 (keyQueue (snd (runKeyQueue p))) =
   sent_keys (engine p) @ map charCodeAt0 (keyQueue p)"
  by (cases "keyQueue p")
     (auto simp: runKeyQueue_def Let_def sent_keys_append)

lemma run_keys_commands:
  "sent_commands (engine (snd (runKeyQueue p))) = sent_commands (engine p) \<and>
   commandQueue (snd (runKeyQueue p)) = commandQueue p"
  by (cases "keyQueue p")
     (auto simp: runKeyQueue_def Let_def sent_commands_append)

lemma queueCommand_behind:
  "sent_commands (engine (queueCommand command silent_flag ready p)) @
     commandQueue (queueCommand command silent_flag ready p) =
   sent_commands (engine p) @ commandQueue p @ [\<lparr>cmd = command, silent = silent_flag\<rparr>]"
  using run_commands_inv [of "p\<lparr>commandQueue := commandQueue p @ [\<lparr>cmd = command, silent = silent_flag\<rparr>]\<rparr>"]
  by (simp add: queueCommand_def Let_def)

lemma queueKeypress_behind:
  "sent_keys (engine (queueKeypress key mode p)) @
     map charCodeAt0 (keyQueue (queueKeypress key mode p)) =
   sent_keys (engine p) @ map charCodeAt0 (keyQueue p @ [key])"
  using run_keys_inv [of "p\<lparr>keyQueue := keyQueue p @ [key]\<rparr>"]
  by (simp add: queueKeypress_def Let_def)

lemma act_commands:
  "sent_commands (engine (act p a)) @ commandQueue (act p a) =
   sent_commands (engine p) @ commandQueue p @ queued_commands [a]"
proof (cases a)
  case (QueueCommand c s ready)
  then show ?thesis using queueCommand_behind [of c s ready p] by simp
next
  case (QueueKeypress k mode)
  let ?p1 = "p\<lparr>keyQueue := keyQueue p @ [k]\<rparr>"
  show ?thesis using QueueKeypress run_keys_commands [of ?p1]
    by (simp add: queueKeypress_def Let_def)
next
  case ExpectCommand
  then show ?thesis using run_commands_inv [of p] by (simp add: fire_expectCommand)
next
  case ExpectKeypress
  then show ?thesis using run_keys_commands [of p] by (simp add: fire_expectKeypress)
qed

lemma act_keys:
  "sent_keys (engine (act p a)) @ map charCodeAt0 (keyQueue (act p a)) =
   sent_keys (engine p) @ map charCodeAt0 (keyQueue p @ queued_keys [a])"
proof (cases a)
  case (QueueCommand c s ready)
  let ?p1 = "p\<lparr>commandQueue := commandQueue p @ [\<lparr>cmd = c, silent = s\<rparr>]\<rparr>"
  show ?thesis using QueueCommand run_commands_keys [of ?p1]
    by (simp add: queueCommand_def Let_def)
next
  case (QueueKeypress k mode)
  then show ?thesis using queueKeypress_behind [of k mode p] by simp
next
  case ExpectCommand
  then show ?thesis using run_commands_keys [of p] by (simp add: fire_expectCommand)
next
  case ExpectKeypress
  then show ?thesis using run_keys_inv [of p] by (simp add: fire_expectKeypress)
qed

lemma queued_commands_append:
  "queued_commands (xs @ ys) = queued_commands xs @ queued_commands ys"
  by (induction xs rule: queued_commands.induct) auto

lemma queued_keys_append: "queued_keys (xs @ ys) = queued_keys xs @ queued_keys ys"
  by (induction xs rule: queued_keys.induct) auto

lemma fifo_commands:
  "sent_commands (engine (foldl act p as)) @ commandQueue (foldl act p as) =
   sent_commands (engine p) @ commandQueue p @ queued_commands as"
proof (induction as arbitrary: p)
  case Nil
  show ?case by simp
next
  case (Cons a as)
  have "queued_commands (a # as) = queued_commands [a] @ queued_commands as"
    using queued_commands_append [of "[a]" as] by simp
  with Cons.IH [of "act p a"] act_commands [of p a] show ?case by simp
qed

lemma fifo_keys:
  "sent_keys (engine (foldl act p as)) @ map charCodeAt0 (keyQueue (foldl act p as)) =
   sent_keys (engine p) @ map charCodeAt0 (keyQueue p @ queued_keys as)"
proof (induction as arbitrary: p)
  case Nil
  show ?case by simp
next
  case (Cons a as)
  have "queued_keys (a # as) = queued_keys [a] @ queued_keys as"
    using queued_keys_append [of "[a]" as] by simp
  with Cons.IH [of "act p a"] act_keys [of p a] show ?case by simp
qed

text \<open>
  C5, as amended. When an "expectCommand" event fires, the oldest queued command, if
  there is one, is submitted and removed from the queue: one command for each event,
  and nothing happens on an empty queue. The queue is empty, and every command that
  was queued has been submitted, in order, once the event has fired as many times as
  there were commands. Likewise for "expectKeypress" and the keypress queue.
\<close>

theorem expect_events_run_one_each:
  "(commandQueue p = [] \<longrightarrow> fire ''expectCommand'' (init []) p = p) \<and>
   (commandQueue p = x # xs \<longrightarrow>
      fire ''expectCommand'' (init []) p =
        p\<lparr>commandQueue := xs, engine := engine p @ [send_of x]\<rparr>) \<and>
   (fire ''expectCommand'' (init []) ^^ length (commandQueue p)) p =
      p\<lparr>commandQueue := [], engine := engine p @ map send_of (commandQueue p)\<rparr> \<and>
   (keyQueue p = [] \<longrightarrow> fire ''expectKeypress'' (init []) p = p) \<and>
   (keyQueue p = k # ks \<longrightarrow>
      fire ''expectKeypress'' (init []) p =
        p\<lparr>keyQueue := ks, engine := engine p @ [press_of k]\<rparr>) \<and>
   (fire ''expectKeypress'' (init []) ^^ length (keyQueue p)) p =
      p\<lparr>keyQueue := [], engine := engine p @ map press_of (keyQueue p)\<rparr>"
proof (intro conjI impI)
  assume "commandQueue p = []"
  then show "fire ''expectCommand'' (init []) p = p"
    by (simp add: fire_expectCommand runCommandQueue_Nil)
next
  assume "commandQueue p = x # xs"
  then show "fire ''expectCommand'' (init []) p =
      p\<lparr>commandQueue := xs, engine := engine p @ [send_of x]\<rparr>"
    by (simp add: fire_expectCommand runCommandQueue_Cons)
next
  show "(fire ''expectCommand'' (init []) ^^ length (commandQueue p)) p =
      p\<lparr>commandQueue := [], engine := engine p @ map send_of (commandQueue p)\<rparr>"
    by (rule drain_commands) simp
next
  assume "keyQueue p = []"
  then show "fire ''expectKeypress'' (init []) p = p"
    by (simp add: fire_expectKeypress runKeyQueue_Nil)
next
  assume "keyQueue p = k # ks"
  then show "fire ''expectKeypress'' (init []) p =
      p\<lparr>keyQueue := ks, engine := engine p @ [press_of k]\<rparr>"
    by (simp add: fire_expectKeypress runKeyQueue_Cons)
next
  show "(fire ''expectKeypress'' (init []) ^^ length (keyQueue p)) p =
      p\<lparr>keyQueue := [], engine := engine p @ map press_of (keyQueue p)\<rparr>"
    by (rule drain_keys) simp
qed

theorem expect_events_run_one_each_witness:
  "commandQueue
     \<lparr>commandQueue = [\<lparr>cmd = ''look'', silent = False\<rparr>, \<lparr>cmd = ''wait'', silent = True\<rparr>],
      keyQueue = [''y'', ''n''], engine = []\<rparr>
     = \<lparr>cmd = ''look'', silent = False\<rparr> # [\<lparr>cmd = ''wait'', silent = True\<rparr>] \<and>
   fire ''expectCommand'' (init [])
     \<lparr>commandQueue = [\<lparr>cmd = ''look'', silent = False\<rparr>, \<lparr>cmd = ''wait'', silent = True\<rparr>],
      keyQueue = [''y'', ''n''], engine = []\<rparr>
     = \<lparr>commandQueue = [\<lparr>cmd = ''wait'', silent = True\<rparr>],
        keyQueue = [''y'', ''n''], engine = [SendCommand ''look'' False False]\<rparr> \<and>
   keyQueue
     \<lparr>commandQueue = [\<lparr>cmd = ''look'', silent = False\<rparr>, \<lparr>cmd = ''wait'', silent = True\<rparr>],
      keyQueue = [''y'', ''n''], engine = []\<rparr>
     = ''y'' # [''n''] \<and>
   fire ''expectKeypress'' (init [])
     \<lparr>commandQueue = [\<lparr>cmd = ''look'', silent = False\<rparr>, \<lparr>cmd = ''wait'', silent = True\<rparr>],
      keyQueue = [''y'', ''n''], engine = []\<rparr>
     = \<lparr>commandQueue = [\<lparr>cmd = ''look'', silent = False\<rparr>, \<lparr>cmd = ''wait'', silent = True\<rparr>],
        keyQueue = [''n''], engine = [KeypressSend (Some 121) True]\<rparr> \<and>
   (fire ''expectCommand'' (init []) ^^ 2)
     \<lparr>commandQueue = [\<lparr>cmd = ''look'', silent = False\<rparr>, \<lparr>cmd = ''wait'', silent = True\<rparr>],
      keyQueue = [''y'', ''n''], engine = []\<rparr>
     = \<lparr>commandQueue = [], keyQueue = [''y'', ''n''],
        engine = [SendCommand ''look'' False False, SendCommand ''wait'' True False]\<rparr>"
proof -
  let ?look = "\<lparr>cmd = ''look'', silent = False\<rparr>"
  let ?wait = "\<lparr>cmd = ''wait'', silent = True\<rparr>"
  let ?p = "\<lparr>commandQueue = [?look, ?wait], keyQueue = [''y'', ''n''], engine = []\<rparr>"
  have commands: "commandQueue ?p = ?look # [?wait]" by simp
  have keys: "keyQueue ?p = ''y'' # [''n'']" by simp
  have two: "length (commandQueue ?p) = 2" by simp
  from expect_events_run_one_each [of ?p ?look "[?wait]" "''y''" "[''n'']"] commands keys
  have one_command: "fire ''expectCommand'' (init []) ?p =
      ?p\<lparr>commandQueue := [?wait], engine := engine ?p @ [send_of ?look]\<rparr>"
    and all_commands: "(fire ''expectCommand'' (init []) ^^ length (commandQueue ?p)) ?p =
      ?p\<lparr>commandQueue := [], engine := engine ?p @ map send_of (commandQueue ?p)\<rparr>"
    and one_key: "fire ''expectKeypress'' (init []) ?p =
      ?p\<lparr>keyQueue := [''n''], engine := engine ?p @ [press_of ''y'']\<rparr>"
    by blast+
  have a: "fire ''expectCommand'' (init []) ?p =
      \<lparr>commandQueue = [?wait], keyQueue = [''y'', ''n''],
       engine = [SendCommand ''look'' False False]\<rparr>"
    by (simp only: one_command) (simp add: send_of_def)
  have b: "fire ''expectKeypress'' (init []) ?p =
      \<lparr>commandQueue = [?look, ?wait], keyQueue = [''n''],
       engine = [KeypressSend (Some 121) True]\<rparr>"
    by (simp only: one_key) (simp add: press_of_def charCodeAt0_def)
  have c: "(fire ''expectCommand'' (init []) ^^ 2) ?p =
      \<lparr>commandQueue = [], keyQueue = [''y'', ''n''],
       engine = [SendCommand ''look'' False False, SendCommand ''wait'' True False]\<rparr>"
    using all_commands by (simp only: two) (simp add: send_of_def)
  from commands a keys b c show ?thesis by blast
qed

text \<open>
  C5 as the specification has it (one "expectCommand" event drains the queue) fails:
  with two commands queued, the event submits the first and leaves the second in the
  queue.
\<close>

theorem expectCommand_leaves_second_command:
  "fire ''expectCommand'' (init [])
     \<lparr>commandQueue = [\<lparr>cmd = ''look'', silent = False\<rparr>, \<lparr>cmd = ''wait'', silent = True\<rparr>],
      keyQueue = [], engine = []\<rparr>
   = \<lparr>commandQueue = [\<lparr>cmd = ''wait'', silent = True\<rparr>], keyQueue = [],
      engine = [SendCommand ''look'' False False]\<rparr>"
  by (simp add: init_def addEventListener_def runCommandQueue_def submit_def Let_def)

text \<open>
  C6. The command queue and the keypress queue are first in, first out.
  \<^verbatim>\<open>queueCommand\<close> and \<^verbatim>\<open>queueKeypress\<close> put the new element behind everything that
  is pending (whether or not they run the queue at once); a dequeuing step
  (\<^verbatim>\<open>runCommandQueue\<close>, \<^verbatim>\<open>runKeyQueue\<close>) removes exactly the oldest element and
  forwards it to the engine. So after any sequence of queueing calls and events, what
  the engine has been sent, followed by what is still pending, is what was queued, in
  the order in which it was queued.
\<close>

theorem queues_fifo:
  "sent_commands (engine (queueCommand command silent_flag ready p)) @
     commandQueue (queueCommand command silent_flag ready p) =
     sent_commands (engine p) @ commandQueue p @ [\<lparr>cmd = command, silent = silent_flag\<rparr>] \<and>
   (\<not> ready \<longrightarrow>
      queueCommand command silent_flag ready p =
        p\<lparr>commandQueue := commandQueue p @ [\<lparr>cmd = command, silent = silent_flag\<rparr>]\<rparr>) \<and>
   sent_keys (engine (queueKeypress key mode p)) @
     map charCodeAt0 (keyQueue (queueKeypress key mode p)) =
     sent_keys (engine p) @ map charCodeAt0 (keyQueue p @ [key]) \<and>
   (mode \<noteq> ''getkey'' \<longrightarrow>
      queueKeypress key mode p = p\<lparr>keyQueue := keyQueue p @ [key]\<rparr>) \<and>
   (commandQueue p = x # xs \<longrightarrow>
      runCommandQueue p =
        (JBool False, p\<lparr>commandQueue := xs, engine := engine p @ [send_of x]\<rparr>)) \<and>
   (keyQueue p = k # ks \<longrightarrow>
      runKeyQueue p =
        (JBool False, p\<lparr>keyQueue := ks, engine := engine p @ [press_of k]\<rparr>)) \<and>
   sent_commands (engine (foldl act empty_prompt as)) @
     commandQueue (foldl act empty_prompt as) = queued_commands as \<and>
   sent_keys (engine (foldl act empty_prompt as)) @
     map charCodeAt0 (keyQueue (foldl act empty_prompt as)) = map charCodeAt0 (queued_keys as)"
proof (intro conjI impI)
  show "sent_commands (engine (queueCommand command silent_flag ready p)) @
     commandQueue (queueCommand command silent_flag ready p) =
     sent_commands (engine p) @ commandQueue p @ [\<lparr>cmd = command, silent = silent_flag\<rparr>]"
    by (rule queueCommand_behind)
next
  assume "\<not> ready"
  then show "queueCommand command silent_flag ready p =
        p\<lparr>commandQueue := commandQueue p @ [\<lparr>cmd = command, silent = silent_flag\<rparr>]\<rparr>"
    by (simp add: queueCommand_def)
next
  show "sent_keys (engine (queueKeypress key mode p)) @
     map charCodeAt0 (keyQueue (queueKeypress key mode p)) =
     sent_keys (engine p) @ map charCodeAt0 (keyQueue p @ [key])"
    by (rule queueKeypress_behind)
next
  assume "mode \<noteq> ''getkey''"
  then show "queueKeypress key mode p = p\<lparr>keyQueue := keyQueue p @ [key]\<rparr>"
    by (simp add: queueKeypress_def)
next
  assume "commandQueue p = x # xs"
  then show "runCommandQueue p =
        (JBool False, p\<lparr>commandQueue := xs, engine := engine p @ [send_of x]\<rparr>)"
    by (rule runCommandQueue_Cons)
next
  assume "keyQueue p = k # ks"
  then show "runKeyQueue p =
        (JBool False, p\<lparr>keyQueue := ks, engine := engine p @ [press_of k]\<rparr>)"
    by (rule runKeyQueue_Cons)
next
  show "sent_commands (engine (foldl act empty_prompt as)) @
     commandQueue (foldl act empty_prompt as) = queued_commands as"
    using fifo_commands [of empty_prompt as] by (simp add: empty_prompt_def)
next
  show "sent_keys (engine (foldl act empty_prompt as)) @
     map charCodeAt0 (keyQueue (foldl act empty_prompt as)) = map charCodeAt0 (queued_keys as)"
    using fifo_keys [of empty_prompt as] by (simp add: empty_prompt_def)
qed

theorem queues_fifo_witness:
  "\<not> False \<and> ''getline'' \<noteq> ''getkey'' \<and>
   commandQueue \<lparr>commandQueue = [\<lparr>cmd = ''look'', silent = False\<rparr>],
                 keyQueue = [''y''], engine = []\<rparr> = \<lparr>cmd = ''look'', silent = False\<rparr> # [] \<and>
   keyQueue \<lparr>commandQueue = [\<lparr>cmd = ''look'', silent = False\<rparr>],
             keyQueue = [''y''], engine = []\<rparr> = ''y'' # [] \<and>
   queueCommand ''jump'' False False
     \<lparr>commandQueue = [\<lparr>cmd = ''look'', silent = False\<rparr>], keyQueue = [''y''], engine = []\<rparr>
     = \<lparr>commandQueue = [\<lparr>cmd = ''look'', silent = False\<rparr>, \<lparr>cmd = ''jump'', silent = False\<rparr>],
        keyQueue = [''y''], engine = []\<rparr> \<and>
   queueKeypress ''n'' ''getline''
     \<lparr>commandQueue = [\<lparr>cmd = ''look'', silent = False\<rparr>], keyQueue = [''y''], engine = []\<rparr>
     = \<lparr>commandQueue = [\<lparr>cmd = ''look'', silent = False\<rparr>],
        keyQueue = [''y'', ''n''], engine = []\<rparr> \<and>
   runCommandQueue
     \<lparr>commandQueue = [\<lparr>cmd = ''look'', silent = False\<rparr>], keyQueue = [''y''], engine = []\<rparr>
     = (JBool False,
        \<lparr>commandQueue = [], keyQueue = [''y''], engine = [SendCommand ''look'' False False]\<rparr>) \<and>
   runKeyQueue
     \<lparr>commandQueue = [\<lparr>cmd = ''look'', silent = False\<rparr>], keyQueue = [''y''], engine = []\<rparr>
     = (JBool False,
        \<lparr>commandQueue = [\<lparr>cmd = ''look'', silent = False\<rparr>], keyQueue = [],
         engine = [KeypressSend (Some 121) True]\<rparr>) \<and>
   foldl act empty_prompt
     [QueueCommand ''look'' False False, QueueCommand ''wait'' True False, ExpectCommand,
      QueueKeypress ''y'' ''getline'', QueueCommand ''jump'' False True, ExpectKeypress]
     = \<lparr>commandQueue = [\<lparr>cmd = ''jump'', silent = False\<rparr>], keyQueue = [],
        engine = [SendCommand ''look'' False False, SendCommand ''wait'' True False,
                  KeypressSend (Some 121) True]\<rparr> \<and>
   [\<lparr>cmd = ''look'', silent = False\<rparr>, \<lparr>cmd = ''wait'', silent = True\<rparr>] @
     [\<lparr>cmd = ''jump'', silent = False\<rparr>] =
     queued_commands
       [QueueCommand ''look'' False False, QueueCommand ''wait'' True False, ExpectCommand,
        QueueKeypress ''y'' ''getline'', QueueCommand ''jump'' False True, ExpectKeypress] \<and>
   [Some 121] @ map charCodeAt0 [] =
     map charCodeAt0 (queued_keys
       [QueueCommand ''look'' False False, QueueCommand ''wait'' True False, ExpectCommand,
        QueueKeypress ''y'' ''getline'', QueueCommand ''jump'' False True, ExpectKeypress])"
proof -
  let ?look = "\<lparr>cmd = ''look'', silent = False\<rparr>"
  let ?p = "\<lparr>commandQueue = [?look], keyQueue = [''y''], engine = []\<rparr>"
  let ?as = "[QueueCommand ''look'' False False, QueueCommand ''wait'' True False, ExpectCommand,
      QueueKeypress ''y'' ''getline'', QueueCommand ''jump'' False True, ExpectKeypress]"
  have commands: "commandQueue ?p = ?look # []" by simp
  have keys: "keyQueue ?p = ''y'' # []" by simp
  have mode: "''getline'' \<noteq> ''getkey''" by simp
  have run: "foldl act empty_prompt ?as =
      \<lparr>commandQueue = [\<lparr>cmd = ''jump'', silent = False\<rparr>], keyQueue = [],
       engine = [SendCommand ''look'' False False, SendCommand ''wait'' True False,
                 KeypressSend (Some 121) True]\<rparr>"
    by (simp add: empty_prompt_def queueCommand_def queueKeypress_def runCommandQueue_def
        runKeyQueue_def submit_def init_def addEventListener_def charCodeAt0_def Let_def)
  from queues_fifo [of "''jump''" False False ?p "''n''" "''getline''" ?look "[]" "''y''" "[]" ?as]
    commands keys mode
  have a: "queueCommand ''jump'' False False ?p =
        ?p\<lparr>commandQueue := commandQueue ?p @ [\<lparr>cmd = ''jump'', silent = False\<rparr>]\<rparr>"
    and b: "queueKeypress ''n'' ''getline'' ?p = ?p\<lparr>keyQueue := keyQueue ?p @ [''n'']\<rparr>"
    and c: "runCommandQueue ?p =
        (JBool False, ?p\<lparr>commandQueue := [], engine := engine ?p @ [send_of ?look]\<rparr>)"
    and d: "runKeyQueue ?p =
        (JBool False, ?p\<lparr>keyQueue := [], engine := engine ?p @ [press_of ''y'']\<rparr>)"
    and e: "sent_commands (engine (foldl act empty_prompt ?as)) @
        commandQueue (foldl act empty_prompt ?as) = queued_commands ?as"
    and f: "sent_keys (engine (foldl act empty_prompt ?as)) @
        map charCodeAt0 (keyQueue (foldl act empty_prompt ?as)) = map charCodeAt0 (queued_keys ?as)"
    by blast+
  have a': "queueCommand ''jump'' False False ?p =
      \<lparr>commandQueue = [?look, \<lparr>cmd = ''jump'', silent = False\<rparr>], keyQueue = [''y''], engine = []\<rparr>"
    by (simp only: a) simp
  have b': "queueKeypress ''n'' ''getline'' ?p =
      \<lparr>commandQueue = [?look], keyQueue = [''y'', ''n''], engine = []\<rparr>"
    by (simp only: b) simp
  have c': "runCommandQueue ?p =
      (JBool False,
       \<lparr>commandQueue = [], keyQueue = [''y''], engine = [SendCommand ''look'' False False]\<rparr>)"
    by (simp only: c) (simp add: send_of_def)
  have d': "runKeyQueue ?p =
      (JBool False,
       \<lparr>commandQueue = [?look], keyQueue = [], engine = [KeypressSend (Some 121) True]\<rparr>)"
    by (simp only: d) (simp add: press_of_def charCodeAt0_def)
  have e': "[?look, \<lparr>cmd = ''wait'', silent = True\<rparr>] @ [\<lparr>cmd = ''jump'', silent = False\<rparr>] =
      queued_commands ?as"
    using e by (simp only: run) simp
  have f': "[Some 121] @ map charCodeAt0 [] = map charCodeAt0 (queued_keys ?as)"
    using f by (simp only: run) simp
  from commands keys mode a' b' c' d' run e' f' show ?thesis by blast
qed

end
